theory Spec2Isabelle
  imports Complex_Main
begin

section \<open>The n-th prime by bound estimation and Miller-Rabin (src/main.py)\<close>

text \<open>
  The program has three functions: \<open>location_approximator\<close> (analytic bounds on the
  n-th prime), \<open>miller_rabin\<close> (the primality test) and \<open>nth_prime\<close> (the search).
  Python's integers are unbounded, so they are \<open>int\<close>. Exceptions are values of
  the type \<open>error\<close>; a loop that the source does not bound is a
  \<^theory_text>\<open>partial_function\<close> in the option monad, where \<open>None\<close> stands for a run that
  never returns.
\<close>

subsection \<open>Errors and the floating-point primitives\<close>

text \<open>
  \<open>ValueError\<close> is what \<open>math.log\<close> raises on an argument that is not positive
  ("math domain error"). \<open>OverflowError\<close> is what Python raises when an integer is too
  large to convert to a float, and when \<open>int\<close> is applied to an infinite float.
  \<open>UnboundLocalError\<close> is what Python raises when a local variable is read before any
  branch assigned it.
\<close>

datatype error = ValueError | OverflowError | UnboundLocalError

text \<open>
  The source computes the bounds with double-precision floats. The model keeps their range
  and idealises their precision: a finite float is a real number, \<open>math.log\<close> is the natural
  logarithm, and a sum, difference, product or quotient has its exact value (no rounding).
  A double holds magnitudes below \<open>2 ^ 1024 - 2 ^ 970\<close> (anything from there on rounds
  beyond the largest double):
  \<^item> converting an integer of at least that magnitude to a float raises \<open>OverflowError\<close>
    (\<open>n * x\<close> with an integer \<open>n\<close> and a float \<open>x\<close> converts \<open>n\<close> first);
  \<^item> a product of at least that magnitude is infinite, and \<open>int\<close> of an infinite float
    raises \<open>OverflowError\<close>; \<open>int\<close> of a finite float truncates towards zero.
  \<open>math.log\<close> accepts an integer of any size.
\<close>

definition float_limit :: real where
  "float_limit = 2 ^ 1024 - 2 ^ 970"

definition math_log :: "real \<Rightarrow> error + real" where
  "math_log x = (if x \<le> 0 then Inl ValueError else Inr (ln x))"

definition float_of_int :: "int \<Rightarrow> error + real" where
  "float_of_int n =
     (if float_limit \<le> \<bar>real_of_int n\<bar> then Inl OverflowError else Inr (real_of_int n))"

definition truncation :: "real \<Rightarrow> int" where
  "truncation x = (if 0 \<le> x then \<lfloor>x\<rfloor> else \<lceil>x\<rceil>)"

definition py_int :: "real \<Rightarrow> error + int" where
  "py_int x = (if float_limit \<le> \<bar>x\<bar> then Inl OverflowError else Inr (truncation x))"

text \<open>The expression \<open>int(n * x)\<close> for an integer \<open>n\<close> and a float \<open>x\<close>.\<close>

definition int_of_product :: "int \<Rightarrow> real \<Rightarrow> error + int" where
  "int_of_product n x =
     (case float_of_int n of Inl e \<Rightarrow> Inl e | Inr f \<Rightarrow> py_int (f * x))"

subsection \<open>location\_approximator\<close>

text \<open>
  The three \<open>if\<close> statements of the source that assign \<open>lower_bound\<close> and
  \<open>upper_bound\<close> run one after the other, each overwriting the pair; \<open>None\<close> is the
  pair before any assignment. An error raised in one of them ends the call.
\<close>

definition location_approximator :: "int \<Rightarrow> error + (int \<times> int)" where
  "location_approximator n =
    (if n = 1 then Inr (2, 2)
     else if n = 2 then Inr (3, 3)
     else if n = 3 then Inr (5, 5)
     else
       case math_log (of_int n) of
         Inl e \<Rightarrow> Inl e
       | Inr ln_n \<Rightarrow>
      (case math_log ln_n of
         Inl e \<Rightarrow> Inl e
       | Inr ln_ln_n \<Rightarrow>
      (case (if n \<ge> 6
             then
               (case int_of_product n (ln_n + ln_ln_n - 1) of
                  Inl e \<Rightarrow> Inl e
                | Inr lower_bound \<Rightarrow>
                   (case int_of_product n (ln_n + ln_ln_n) of
                      Inl e \<Rightarrow> Inl e
                    | Inr u \<Rightarrow> Inr (Some (lower_bound, u + 1))))
             else Inr None) of
         Inl e \<Rightarrow> Inl e
       | Inr b1 \<Rightarrow>
      (case (if n \<ge> 688383
             then
               (let lower_term = (ln_ln_n - 2) / ln_n;
                    lower_correction =
                      (ln_ln_n ^ 2 - 6 * ln_ln_n + 11321 / 1000) / (2 * ln_n ^ 2)
                in case int_of_product n
                          (ln_n + ln_ln_n - 1 + lower_term - lower_correction) of
                     Inl e \<Rightarrow> Inl e
                   | Inr lower_bound \<Rightarrow>
                      (let upper_term = (ln_ln_n - 2) / ln_n;
                           upper_correction =
                             (ln_ln_n ^ 2 - 6 * ln_ln_n) / (2 * ln_n ^ 2)
                       in case int_of_product n
                                 (ln_n + ln_ln_n - 1 + upper_term - upper_correction) of
                            Inl e \<Rightarrow> Inl e
                          | Inr u \<Rightarrow> Inr (Some (lower_bound, u + 1))))
             else Inr b1) of
         Inl e \<Rightarrow> Inl e
       | Inr b2 \<Rightarrow>
          (let b3 = (if n < 6 then Some (2, 30) else b2)
           in case b3 of
                None \<Rightarrow> Inl UnboundLocalError
              | Some (lower_bound, upper_bound) \<Rightarrow>
                  Inr (if lower_bound > 2 \<and> lower_bound mod 2 = 0
                       then lower_bound + 1 else lower_bound,
                       upper_bound))))))"

subsection \<open>miller\_rabin\<close>

text \<open>
  Python's three-argument \<open>pow(a, e, m)\<close> for an exponent \<open>e \<ge> 0\<close> and a modulus
  \<open>m > 0\<close>: the power reduced into \<open>0 \<le> result < m\<close>. The test calls it with
  \<open>e = d \<ge> 1\<close> or \<open>e = 2\<close>, and \<open>m = num \<ge> 5\<close>.
\<close>

definition pow_mod :: "int \<Rightarrow> int \<Rightarrow> int \<Rightarrow> int" where
  "pow_mod a e m = a ^ nat e mod m"

text \<open>
  The loop \<open>while d % 2 == 0: r += 1; d //= 2\<close>. It does not return for \<open>d = 0\<close>,
  so it is a partial function.
\<close>

partial_function (option) factor_loop :: "int \<Rightarrow> int \<Rightarrow> (int \<times> int) option" where
  "factor_loop r d = (if d mod 2 = 0 then factor_loop (r + 1) (d div 2) else Some (r, d))"

text \<open>
  The inner loop \<open>for _ in range(r - 1)\<close>, given the number of iterations left; the
  result is the flag \<open>composite\<close> after the loop.
\<close>

fun squaring_loop :: "nat \<Rightarrow> int \<Rightarrow> int \<Rightarrow> bool" where
  "squaring_loop 0 x num = True"
| "squaring_loop (Suc k) x num =
     (let x' = pow_mod x 2 num
      in if x' = num - 1 then False else squaring_loop k x' num)"

text \<open>The loop \<open>for a in witnesses\<close>; \<open>False\<close> is the early \<open>return False\<close>.\<close>

fun witness_loop :: "int list \<Rightarrow> int \<Rightarrow> int \<Rightarrow> int \<Rightarrow> bool" where
  "witness_loop [] num r d = True"
| "witness_loop (a # as) num r d =
     (if a \<ge> num then witness_loop as num r d
      else
        let x = pow_mod a d num
        in if x = 1 \<or> x = num - 1 then witness_loop as num r d
           else if squaring_loop (nat (r - 1)) x num then False
           else witness_loop as num r d)"

definition miller_rabin :: "int \<Rightarrow> int list \<Rightarrow> bool option" where
  "miller_rabin num witnesses =
    (if num < 2 then Some False
     else if num = 2 \<or> num = 3 then Some True
     else if num mod 2 = 0 then Some False
     else
       case factor_loop 0 (num - 1) of
         None \<Rightarrow> None
       | Some (r, d) \<Rightarrow> Some (witness_loop witnesses num r d))"

subsection \<open>nth\_prime\<close>

definition witnesses7 :: "int list" where
  "witnesses7 = [2, 3, 5, 7, 11, 13, 17]"

text \<open>
  The first loop counts the primes among the odd numbers from 3 up to \<open>lower_bound\<close>
  (excluded). It returns the state \<open>(prime_count, candidate)\<close> at its exit.
\<close>

function count_loop :: "int \<Rightarrow> int \<Rightarrow> int \<Rightarrow> (int \<times> int) option" where
  "count_loop lower_bound prime_count candidate =
    (if candidate < lower_bound then
       (case miller_rabin candidate witnesses7 of
          None \<Rightarrow> None
        | Some b \<Rightarrow>
            count_loop lower_bound (if b then prime_count + 1 else prime_count) (candidate + 2))
     else Some (prime_count, candidate))"
  by pat_completeness auto
termination
  by (relation "measure (\<lambda>(lower_bound, prime_count, candidate). nat (lower_bound - candidate))")
     auto

text \<open>
  The second loop searches up to \<open>upper_bound\<close>. \<open>Inl c\<close> is the \<open>return candidate\<close>
  inside the loop, \<open>Inr (prime_count, candidate)\<close> the state when the loop ends without
  returning.
\<close>

function search_loop :: "int \<Rightarrow> int \<Rightarrow> int \<Rightarrow> int \<Rightarrow> (int + int \<times> int) option" where
  "search_loop n upper_bound prime_count candidate =
    (if prime_count < n \<and> candidate \<le> upper_bound then
       (case (if candidate = 2 then Some True
              else if candidate > 2 then miller_rabin candidate witnesses7
              else Some False) of
          None \<Rightarrow> None
        | Some b \<Rightarrow>
            if b \<and> prime_count + 1 = n then Some (Inl candidate)
            else search_loop n upper_bound
                   (if b then prime_count + 1 else prime_count)
                   (if candidate = 2 then 3 else candidate + 2))
     else Some (Inr (prime_count, candidate)))"
  by pat_completeness auto
termination
  by (relation "measure (\<lambda>(n, upper_bound, prime_count, candidate).
                  nat (upper_bound + 1 - candidate))")
     (auto split: if_splits)

declare count_loop.simps [simp del] search_loop.simps [simp del]

text \<open>
  The third loop has no upper bound: it ends only when enough primes have been found.
\<close>

partial_function (option) extend_loop :: "int \<Rightarrow> int \<Rightarrow> int \<Rightarrow> int option" where
  "extend_loop n prime_count candidate =
    (if prime_count < n then
       Option.bind (miller_rabin candidate witnesses7) (\<lambda>b.
         if b \<and> prime_count + 1 = n then Some candidate
         else extend_loop n (if b then prime_count + 1 else prime_count) (candidate + 2))
     else Some candidate)"

text \<open>
  The result of \<open>nth_prime\<close>: \<open>None\<close> if the call never returns, \<open>Some (Inl e)\<close> if
  it raises \<open>e\<close>, \<open>Some (Inr p)\<close> if it returns \<open>p\<close>.
\<close>

definition nth_prime :: "int \<Rightarrow> (error + int) option" where
  "nth_prime n =
    (if n = 1 then Some (Inr 2)
     else
       case location_approximator n of
         Inl e \<Rightarrow> Some (Inl e)
       | Inr (lower_bound, upper_bound) \<Rightarrow>
          (case count_loop lower_bound 1 3 of
             None \<Rightarrow> None
           | Some (prime_count, _) \<Rightarrow>
              (let candidate = (if lower_bound = 2 then 2
                                else if lower_bound mod 2 = 0 then lower_bound + 1
                                else lower_bound)
               in case search_loop n upper_bound prime_count candidate of
                    None \<Rightarrow> None
                  | Some (Inl p) \<Rightarrow> Some (Inr p)
                  | Some (Inr (prime_count', candidate')) \<Rightarrow>
                      map_option Inr (extend_loop n prime_count' candidate'))))"

subsection \<open>Specification-side definitions\<close>

text \<open>
  The round-trip count of the specification: how many integers \<open>q\<close> with
  \<open>2 \<le> q \<le> p\<close> the primality test confirms, by linear scan.
\<close>

definition oracle_count :: "int \<Rightarrow> nat" where
  "oracle_count p = length (filter (\<lambda>q. miller_rabin q witnesses7 = Some True) [2..p])"

text \<open>
  The final adjustment of the lower bound, and the Rosser-Schoenfeld pair as the
  specification writes it (floor of the exact real expression).
\<close>

definition odd_start :: "int \<Rightarrow> int" where
  "odd_start lower = (if lower > 2 \<and> lower mod 2 = 0 then lower + 1 else lower)"

definition rosser_schoenfeld :: "int \<Rightarrow> int \<times> int" where
  "rosser_schoenfeld n =
     (\<lfloor>real_of_int n * (ln (real_of_int n) + ln (ln (real_of_int n)) - 1)\<rfloor>,
      \<lfloor>real_of_int n * (ln (real_of_int n) + ln (ln (real_of_int n)))\<rfloor> + 1)"

text \<open>
  The factors that multiply \<open>n\<close> in the four bound formulas, as functions of the real
  \<open>x = n\<close>.
\<close>

definition rs_lower_factor :: "real \<Rightarrow> real" where
  "rs_lower_factor x = ln x + ln (ln x) - 1"

definition rs_upper_factor :: "real \<Rightarrow> real" where
  "rs_upper_factor x = ln x + ln (ln x)"

definition dusart_lower_factor :: "real \<Rightarrow> real" where
  "dusart_lower_factor x =
     ln x + ln (ln x) - 1 + (ln (ln x) - 2) / ln x
       - ((ln (ln x))\<^sup>2 - 6 * ln (ln x) + 11321 / 1000) / (2 * (ln x)\<^sup>2)"

definition dusart_upper_factor :: "real \<Rightarrow> real" where
  "dusart_upper_factor x =
     ln x + ln (ln x) - 1 + (ln (ln x) - 2) / ln x
       - ((ln (ln x))\<^sup>2 - 6 * ln (ln x)) / (2 * (ln x)\<^sup>2)"

section \<open>The primality test\<close>

subsection \<open>Termination of the factoring loop\<close>

lemma halving_step: "0 < d \<Longrightarrow> d mod 2 = 0 \<Longrightarrow> 0 < d div 2 \<and> d div 2 < (d::int)"
  by presburger

lemma factor_loop_returns:
  "0 < d \<Longrightarrow> \<exists>r' d'. factor_loop r d = Some (r', d') \<and> r \<le> r' \<and> odd d' \<and> 0 < d'
       \<and> d = 2 ^ nat (r' - r) * d'"
proof (induction "nat d" arbitrary: r d rule: less_induct)
  case less
  show ?case
  proof (cases "d mod 2 = 0")
    case True
    with less.prems have half: "0 < d div 2" "d div 2 < d"
      using halving_step [of d] by simp_all
    then have "nat (d div 2) < nat d" by simp
    from less.hyps [OF this half(1), of "r + 1"]
    obtain r' d' where rec: "factor_loop (r + 1) (d div 2) = Some (r', d')"
      "r + 1 \<le> r'" "odd d'" "0 < d'" "d div 2 = 2 ^ nat (r' - (r + 1)) * d'"
      by blast
    have unfold: "factor_loop r d = factor_loop (r + 1) (d div 2)"
      using True by (subst factor_loop.simps) simp
    have "nat (r' - r) = Suc (nat (r' - (r + 1)))" using rec(2) by simp
    moreover have "d = 2 * (d div 2)" using True by presburger
    ultimately have "d = 2 ^ nat (r' - r) * d'" using rec(5) by simp
    with rec unfold show ?thesis by auto
  next
    case False
    then have "factor_loop r d = Some (r, d)" by (subst factor_loop.simps) simp
    moreover have "odd d" using False by presburger
    ultimately show ?thesis using less.prems by simp
  qed
qed

text \<open>
  C10: \<open>miller_rabin\<close> returns on every integer \<open>num\<close> and every witness list. The
  factoring loop is entered only with \<open>num - 1\<close> even and positive, each iteration
  halves it, and the loop ends with \<open>num - 1 = 2 ^ r * d\<close>, \<open>d\<close> odd, \<open>r \<ge> 1\<close>.
  The squaring loop is a recursion on its iteration count \<open>r - 1\<close>, so it makes at
  most \<open>r - 1\<close> steps.
\<close>

theorem miller_rabin_terminates:
  "(\<exists>b. miller_rabin num witnesses = Some b) \<and>
   (3 < num \<and> odd num \<longrightarrow>
      even (num - 1) \<and> 0 < num - 1 \<and>
      (\<exists>r d. factor_loop 0 (num - 1) = Some (r, d) \<and> 1 \<le> r \<and> odd d \<and> 0 < d
             \<and> num - 1 = 2 ^ nat r * d))"
proof (intro conjI impI)
  show "\<exists>b. miller_rabin num witnesses = Some b"
  proof (cases "num < 2 \<or> num = 2 \<or> num = 3 \<or> num mod 2 = 0")
    case True
    then show ?thesis by (auto simp: miller_rabin_def)
  next
    case False
    then have "0 < num - 1" by simp
    from factor_loop_returns [OF this, of 0]
    obtain r d where "factor_loop 0 (num - 1) = Some (r, d)" by blast
    with False show ?thesis by (simp add: miller_rabin_def)
  qed
next
  assume h: "3 < num \<and> odd num"
  then show "even (num - 1)" by simp
  from h show pos: "0 < num - 1" by simp
  from factor_loop_returns [OF pos, of 0]
  obtain r d where rd: "factor_loop 0 (num - 1) = Some (r, d)" "0 \<le> r" "odd d" "0 < d"
    "num - 1 = 2 ^ nat (r - 0) * d" by blast
  have "r \<noteq> 0"
  proof
    assume "r = 0"
    with rd(5) have "num - 1 = d" by simp
    with rd(3) h show False by presburger
  qed
  with rd show "\<exists>r d. factor_loop 0 (num - 1) = Some (r, d) \<and> 1 \<le> r \<and> odd d \<and> 0 < d
             \<and> num - 1 = 2 ^ nat r * d" by auto
qed

theorem miller_rabin_terminates_witness:
  "(\<exists>b. miller_rabin 13 witnesses7 = Some b) \<and> (3::int) < 13 \<and> odd (13::int) \<and>
   (\<exists>r d. factor_loop 0 (13 - 1) = Some (r, d) \<and> 1 \<le> r \<and> odd d \<and> 0 < d
          \<and> (13::int) - 1 = 2 ^ nat r * d)"
  using miller_rabin_terminates [of 13 witnesses7] by simp

subsection \<open>Base cases\<close>

text \<open>
  C6: whatever the witness list, \<open>miller_rabin\<close> answers false below 2, true for 2
  and for 3, and false for every even number above 2.
\<close>

theorem miller_rabin_base_cases:
  "(num < 2 \<longrightarrow> miller_rabin num witnesses = Some False) \<and>
   miller_rabin 2 witnesses = Some True \<and>
   miller_rabin 3 witnesses = Some True \<and>
   (2 < num \<and> even num \<longrightarrow> miller_rabin num witnesses = Some False)"
  by (auto simp: miller_rabin_def)

theorem miller_rabin_base_cases_witness:
  "(0::int) < 2 \<and> miller_rabin 0 [5, 9] = Some False \<and>
   (2::int) < 10 \<and> even (10::int) \<and> miller_rabin 10 [5, 9] = Some False"
  using miller_rabin_base_cases [of 0 "[5, 9]"] miller_rabin_base_cases [of 10 "[5, 9]"]
  by simp

section \<open>The bound estimator\<close>

subsection \<open>Truncation and the range of a float\<close>

lemma float_limit_ge: "10 ^ 305 \<le> float_limit"
  by (simp add: float_limit_def)

lemma truncation_mono: "x \<le> y \<Longrightarrow> truncation x \<le> truncation y"
proof -
  assume xy: "x \<le> y"
  consider "0 \<le> x" | "x < 0" "0 \<le> y" | "y < 0" by linarith
  then show ?thesis
  proof cases
    case 1
    with xy show ?thesis by (simp add: truncation_def floor_mono)
  next
    case 2
    then have "\<lceil>x\<rceil> \<le> 0" "0 \<le> \<lfloor>y\<rfloor>" by (simp_all add: ceiling_le_iff)
    then have "\<lceil>x\<rceil> \<le> \<lfloor>y\<rfloor>" by linarith
    with 2 show ?thesis by (simp add: truncation_def)
  next
    case 3
    with xy show ?thesis by (simp add: truncation_def ceiling_mono)
  qed
qed

lemma truncation_floor: "0 \<le> x \<Longrightarrow> truncation x = \<lfloor>x\<rfloor>"
  by (simp add: truncation_def)

lemma truncation_ge_3: "3 \<le> x \<Longrightarrow> 3 \<le> truncation x"
proof -
  assume "3 \<le> x"
  then have "truncation 3 \<le> truncation x" by (rule truncation_mono)
  then show ?thesis by (simp add: truncation_def)
qed

text \<open>When \<open>int(n * x)\<close> returns, and what it returns.\<close>

lemma int_of_product_value:
  "int_of_product n x = Inr v \<Longrightarrow> v = truncation (real_of_int n * x)"
  by (auto simp: int_of_product_def float_of_int_def py_int_def split: if_splits)

lemma int_of_product_returns:
  assumes "1 \<le> n" "n \<le> 10 ^ 300" "0 \<le> x" "x \<le> 5400"
  shows "int_of_product n x = Inr (truncation (real_of_int n * x))"
proof -
  have n1: "1 \<le> real_of_int n" using assms(1) by simp
  have "real_of_int n \<le> real_of_int (10 ^ 300)" using assms(2) by (rule of_int_le_iff [THEN iffD2])
  then have n2: "real_of_int n \<le> 10 ^ 300" by simp
  have "real_of_int n * x \<le> 10 ^ 300 * 5400"
    using n1 n2 assms(3,4) by (intro mult_mono) simp_all
  moreover have "(10::real) ^ 300 * 5400 < 10 ^ 305" by simp
  ultimately have p: "real_of_int n * x < float_limit" using float_limit_ge by linarith
  have "0 \<le> real_of_int n * x" using n1 assms(3) by simp
  with p have p': "\<bar>real_of_int n * x\<bar> < float_limit" by simp
  have "(10::real) ^ 300 < 10 ^ 305" by simp
  with n2 float_limit_ge have "real_of_int n < float_limit" by linarith
  with n1 have "\<bar>real_of_int n\<bar> < float_limit" by simp
  with p' show ?thesis by (simp add: int_of_product_def float_of_int_def py_int_def)
qed

subsection \<open>Logarithm estimates\<close>

lemma ln_3_ge_1: "1 \<le> ln (3::real)"
proof -
  have "exp 1 \<le> (3::real)" by (rule exp_le)
  then show ?thesis by (simp add: ln_ge_iff)
qed

lemma ln_ge_1: "3 \<le> x \<Longrightarrow> 1 \<le> ln (x::real)"
proof -
  assume "3 \<le> x"
  then have "ln 3 \<le> ln x" by simp
  with ln_3_ge_1 show ?thesis by linarith
qed

lemma ln_ge_4: "81 \<le> x \<Longrightarrow> 4 \<le> ln (x::real)"
proof -
  assume h: "81 \<le> x"
  have "ln (81::real) = ln (3 ^ 4)" by simp
  also have "\<dots> = 4 * ln 3" by (simp add: ln_realpow del: power_numeral)
  finally have "4 \<le> ln (81::real)" using ln_3_ge_1 by linarith
  moreover have "ln 81 \<le> ln x" using h by simp
  ultimately show ?thesis by linarith
qed

lemma ln_6_ge: "3 / 2 \<le> ln (6::real)"
proof -
  have "ln (2 * 3) = ln 2 + ln (3::real)" by (rule ln_mult_pos) simp_all
  then have "ln 2 + ln 3 = ln (6::real)" by simp
  moreover have "1 / 2 \<le> ln (2::real)"
  proof -
    have "ln (1 / 2) \<le> 1 / 2 - (1::real)" by (rule ln_le_minus_one) simp
    moreover have "ln (1 / 2) = - ln (2::real)" by (simp add: ln_div)
    ultimately show ?thesis by linarith
  qed
  ultimately show ?thesis using ln_3_ge_1 by linarith
qed

text \<open>The logarithm of an index up to \<open>10 ^ 300\<close> is at most 2700.\<close>

lemma ln_le_2700:
  assumes "1 \<le> x" "x \<le> 10 ^ 300"
  shows "ln (x::real) \<le> 2700"
proof -
  have "ln x \<le> ln (10 ^ 300)" using assms by simp
  also have "\<dots> = 300 * ln (10::real)" by (simp add: ln_realpow del: power_numeral)
  also have "\<dots> \<le> 300 * 9"
  proof -
    have "ln (10::real) \<le> 10 - 1" by (rule ln_le_minus_one) simp
    then show ?thesis by simp
  qed
  finally show ?thesis by simp
qed

text \<open>The Rosser-Schoenfeld factors from \<open>n = 6\<close> on.\<close>

lemma rs_factors:
  assumes "6 \<le> x"
  shows "1 / 2 \<le> rs_lower_factor x" and "rs_lower_factor x \<le> rs_upper_factor x"
    and "rs_upper_factor x \<le> 2 * ln x" and "0 < ln x"
proof -
  have "ln 6 \<le> ln x" using assms by simp
  with ln_6_ge have l: "3 / 2 \<le> ln x" by linarith
  then have ll: "0 \<le> ln (ln x)" by simp
  from l ll show "1 / 2 \<le> rs_lower_factor x" unfolding rs_lower_factor_def by linarith
  show "rs_lower_factor x \<le> rs_upper_factor x"
    unfolding rs_lower_factor_def rs_upper_factor_def by simp
  have "ln (ln x) \<le> ln x - 1" using l by (intro ln_le_minus_one) linarith
  then show "rs_upper_factor x \<le> 2 * ln x" unfolding rs_upper_factor_def by linarith
  show "0 < ln x" using l by linarith
qed

lemma rs_lower_ge:
  assumes "6 \<le> x"
  shows "3 \<le> x * rs_lower_factor x"
proof -
  have "6 * (1 / 2) \<le> x * rs_lower_factor x"
    using assms rs_factors(1) [OF assms] by (intro mult_mono) simp_all
  then show ?thesis by simp
qed

text \<open>The Dusart factors from \<open>n = 688383\<close> on.\<close>

lemma dusart_factors:
  fixes x :: real
  assumes "688383 \<le> x"
  shows "1 \<le> dusart_lower_factor x" and "dusart_lower_factor x \<le> dusart_upper_factor x"
    and "dusart_upper_factor x \<le> 2 * ln x"
proof -
  define L where "L = ln x"
  define LL where "LL = ln L"
  have L4: "4 \<le> L" unfolding L_def using assms by (intro ln_ge_4) simp
  have LL1: "1 \<le> LL" unfolding LL_def using L4 by (intro ln_ge_1) simp
  have LLle: "LL \<le> L - 1" unfolding LL_def using L4 by (intro ln_le_minus_one) simp
  have L16: "16 \<le> L\<^sup>2"
  proof -
    have "4\<^sup>2 \<le> L\<^sup>2" using L4 by (intro power_mono) simp_all
    then show ?thesis by simp
  qed
  have den: "0 < 2 * L\<^sup>2" using L16 by linarith
  have "(- 1) / L \<le> (LL - 2) / L"
    using LL1 L4 by (intro divide_right_mono) simp_all
  moreover have "- (1 / 4) \<le> (- 1) / L"
    using L4 by (simp add: field_simps)
  ultimately have t1: "- (1 / 4) \<le> (LL - 2) / L" by linarith
  have "LL\<^sup>2 \<le> L\<^sup>2" using LL1 LLle by (intro power_mono) simp_all
  then have num: "LL\<^sup>2 - 6 * LL + 11321 / 1000 \<le> L\<^sup>2 + 12" using LL1 by simp
  have "(LL\<^sup>2 - 6 * LL + 11321 / 1000) / (2 * L\<^sup>2) \<le> (L\<^sup>2 + 12) / (2 * L\<^sup>2)"
    using num den by (intro divide_right_mono) simp_all
  moreover have "(L\<^sup>2 + 12) / (2 * L\<^sup>2) \<le> 7 / 8"
  proof -
    have "((L\<^sup>2 + 12) / (2 * L\<^sup>2) \<le> 7 / 8) = (L\<^sup>2 + 12 \<le> 7 / 8 * (2 * L\<^sup>2))"
      using den by (rule pos_divide_le_eq)
    then show ?thesis using L16 by simp
  qed
  ultimately have t2: "(LL\<^sup>2 - 6 * LL + 11321 / 1000) / (2 * L\<^sup>2) \<le> 7 / 8" by linarith
  have "1 \<le> L + LL - 1 + (LL - 2) / L - (LL\<^sup>2 - 6 * LL + 11321 / 1000) / (2 * L\<^sup>2)"
    using L4 LL1 t1 t2 by linarith
  then show "1 \<le> dusart_lower_factor x"
    unfolding dusart_lower_factor_def LL_def L_def .
  have "(LL\<^sup>2 - 6 * LL) / (2 * L\<^sup>2) \<le> (LL\<^sup>2 - 6 * LL + 11321 / 1000) / (2 * L\<^sup>2)"
    using den by (intro divide_right_mono) simp_all
  then show "dusart_lower_factor x \<le> dusart_upper_factor x"
    unfolding dusart_lower_factor_def dusart_upper_factor_def LL_def L_def by linarith
  have "(LL - 2) / L \<le> L / L"
    using LLle L4 by (intro divide_right_mono) simp_all
  then have t3: "(LL - 2) / L \<le> 1" using L4 by simp
  have "0 \<le> (LL - 3)\<^sup>2" by simp
  then have "- 9 \<le> LL\<^sup>2 - 6 * LL" by (simp add: power2_eq_square algebra_simps)
  then have "(- 9) / (2 * L\<^sup>2) \<le> (LL\<^sup>2 - 6 * LL) / (2 * L\<^sup>2)"
    using den by (intro divide_right_mono) simp_all
  moreover have "- 1 \<le> (- 9) / (2 * L\<^sup>2)"
  proof -
    have "(- 1 \<le> (- 9) / (2 * L\<^sup>2)) = (- 1 * (2 * L\<^sup>2) \<le> - 9)"
      using den by (rule pos_le_divide_eq)
    then show ?thesis using L16 by simp
  qed
  ultimately have t4: "- 1 \<le> (LL\<^sup>2 - 6 * LL) / (2 * L\<^sup>2)" by linarith
  have "L + LL - 1 + (LL - 2) / L - (LL\<^sup>2 - 6 * LL) / (2 * L\<^sup>2) \<le> 2 * L"
    using LLle t3 t4 by linarith
  then show "dusart_upper_factor x \<le> 2 * ln x"
    unfolding dusart_upper_factor_def LL_def L_def .
qed

lemma odd_start_props:
  "2 \<le> l \<Longrightarrow> 2 \<le> odd_start l \<and> odd_start l \<le> l + 1 \<and> (odd_start l = 2 \<or> odd (odd_start l))"
  unfolding odd_start_def by presburger

subsection \<open>The value of location\_approximator in each range\<close>

lemma location_approximator_nonpositive:
  "n < 1 \<Longrightarrow> location_approximator n = Inl ValueError"
  by (simp add: location_approximator_def math_log_def)

lemma location_approximator_4: "location_approximator 4 = Inr (2, 30)"
  by (simp add: location_approximator_def math_log_def)

lemma location_approximator_3: "location_approximator 3 = Inr (5, 5)"
  by (simp add: location_approximator_def)

lemma math_log_index:
  assumes "6 \<le> n"
  shows "math_log (real_of_int n) = Inr (ln (real_of_int n))"
    and "math_log (ln (real_of_int n)) = Inr (ln (ln (real_of_int n)))"
proof -
  have x6: "6 \<le> real_of_int n" using assms by simp
  then show "math_log (real_of_int n) = Inr (ln (real_of_int n))"
    by (simp add: math_log_def)
  show "math_log (ln (real_of_int n)) = Inr (ln (ln (real_of_int n)))"
    using rs_factors(4) [OF x6] by (simp add: math_log_def)
qed

text \<open>The call in the Rosser-Schoenfeld range, errors included.\<close>

lemma location_approximator_mid:
  assumes "6 \<le> n" "n < 688383"
  shows "location_approximator n =
    (case int_of_product n (rs_lower_factor (real_of_int n)) of
       Inl e \<Rightarrow> Inl e
     | Inr lo \<Rightarrow>
        (case int_of_product n (rs_upper_factor (real_of_int n)) of
           Inl e \<Rightarrow> Inl e
         | Inr u \<Rightarrow> Inr (odd_start lo, u + 1)))"
  using assms
  by (simp add: location_approximator_def math_log_index [OF assms(1)] odd_start_def
        rs_lower_factor_def rs_upper_factor_def split: sum.splits)

text \<open>The call in the Dusart range: the Rosser-Schoenfeld pair is computed first.\<close>

lemma location_approximator_big:
  assumes "688383 \<le> n"
  shows "location_approximator n =
    (case int_of_product n (rs_lower_factor (real_of_int n)) of
       Inl e \<Rightarrow> Inl e
     | Inr lo' \<Rightarrow>
    (case int_of_product n (rs_upper_factor (real_of_int n)) of
       Inl e \<Rightarrow> Inl e
     | Inr u' \<Rightarrow>
    (case int_of_product n (dusart_lower_factor (real_of_int n)) of
       Inl e \<Rightarrow> Inl e
     | Inr lo \<Rightarrow>
    (case int_of_product n (dusart_upper_factor (real_of_int n)) of
       Inl e \<Rightarrow> Inl e
     | Inr u \<Rightarrow> Inr (odd_start lo, u + 1)))))"
proof -
  have n6: "6 \<le> n" using assms by simp
  show ?thesis
    using assms
    by (simp add: location_approximator_def math_log_index [OF n6] odd_start_def
          rs_lower_factor_def rs_upper_factor_def dusart_lower_factor_def
          dusart_upper_factor_def Let_def split: sum.splits)
qed

lemma location_approximator_rosser_schoenfeld:
  assumes "6 \<le> n" "n < 688383"
  shows "location_approximator n =
           Inr (odd_start (fst (rosser_schoenfeld n)), snd (rosser_schoenfeld n))"
proof -
  define x where "x = real_of_int n"
  have x6: "6 \<le> x" unfolding x_def using assms(1) by simp
  have n1: "1 \<le> n" using assms(1) by simp
  have "(688383::int) \<le> 10 ^ 300" by simp
  with assms(2) have nn: "n \<le> 10 ^ 300" by linarith
  then have "real_of_int n \<le> real_of_int (10 ^ 300)" by (rule of_int_le_iff [THEN iffD2])
  then have "x \<le> 10 ^ 300" unfolding x_def by simp
  then have l: "ln x \<le> 2700" using x6 by (intro ln_le_2700) simp_all
  note f = rs_factors [OF x6]
  have lo0: "0 \<le> rs_lower_factor x" using f(1) by linarith
  have up0: "0 \<le> rs_upper_factor x" using f(1,2) by linarith
  have up: "rs_upper_factor x \<le> 5400" using f(3) l by linarith
  have lo: "rs_lower_factor x \<le> 5400" using f(2) up by linarith
  have p1: "int_of_product n (rs_lower_factor x) = Inr (truncation (x * rs_lower_factor x))"
    using int_of_product_returns [OF n1 nn lo0 [unfolded x_def] lo [unfolded x_def]]
    by (simp add: x_def)
  have p2: "int_of_product n (rs_upper_factor x) = Inr (truncation (x * rs_upper_factor x))"
    using int_of_product_returns [OF n1 nn up0 [unfolded x_def] up [unfolded x_def]]
    by (simp add: x_def)
  have t1: "truncation (x * rs_lower_factor x) = \<lfloor>x * rs_lower_factor x\<rfloor>"
    using x6 lo0 by (intro truncation_floor) simp
  have t2: "truncation (x * rs_upper_factor x) = \<lfloor>x * rs_upper_factor x\<rfloor>"
    using x6 up0 by (intro truncation_floor) simp
  show ?thesis
    using p1 p2 t1 t2
    by (simp add: location_approximator_mid [OF assms] x_def rosser_schoenfeld_def
          rs_lower_factor_def rs_upper_factor_def)
qed

text \<open>Beyond the range of a double the call raises \<open>OverflowError\<close>.\<close>

lemma location_approximator_overflow:
  assumes "10 ^ 306 \<le> n"
  shows "location_approximator n = Inl OverflowError"
proof -
  define x where "x = real_of_int n"
  have "real_of_int (10 ^ 306) \<le> real_of_int n"
    using assms by (rule of_int_le_iff [THEN iffD2])
  then have xb: "10 ^ 306 \<le> x" unfolding x_def by simp
  have "(688383::int) \<le> 10 ^ 306" by simp
  with assms have big: "688383 \<le> n" by linarith
  have x6: "6 \<le> x"
  proof -
    have "(6::real) \<le> 10 ^ 306" by simp
    with xb show ?thesis by linarith
  qed
  have "ln (10 ^ 306) \<le> ln x" using xb by simp
  moreover have "ln ((10::real) ^ 306) = 306 * ln 10"
    by (simp add: ln_realpow del: power_numeral)
  moreover have "1 \<le> ln (10::real)" by (intro ln_ge_1) simp
  ultimately have l: "306 \<le> ln x" by linarith
  then have "0 \<le> ln (ln x)" by simp
  with l have f: "200 \<le> rs_lower_factor x" unfolding rs_lower_factor_def by linarith
  have "10 ^ 306 * 200 \<le> x * rs_lower_factor x"
    using xb f by (intro mult_mono) simp_all
  moreover have "float_limit \<le> 10 ^ 306 * 200" by (simp add: float_limit_def)
  ultimately have "float_limit \<le> \<bar>x * rs_lower_factor x\<bar>" by linarith
  then have "int_of_product n (rs_lower_factor (real_of_int n)) = Inl OverflowError"
    by (simp add: int_of_product_def float_of_int_def py_int_def x_def)
  then show ?thesis by (simp add: location_approximator_big [OF big])
qed

lemma bounds_from_products:
  assumes lo: "int_of_product n f = Inr lo" and u: "int_of_product n g = Inr u"
    and x: "0 \<le> real_of_int n" and f3: "3 \<le> real_of_int n * f" and fg: "f \<le> g"
  shows "2 \<le> odd_start lo \<and> odd_start lo \<le> u + 1 \<and> (odd_start lo = 2 \<or> odd (odd_start lo))"
proof -
  have lo_eq: "lo = truncation (real_of_int n * f)" using lo by (rule int_of_product_value)
  have u_eq: "u = truncation (real_of_int n * g)" using u by (rule int_of_product_value)
  have lo3: "3 \<le> lo" unfolding lo_eq using f3 by (rule truncation_ge_3)
  have "real_of_int n * f \<le> real_of_int n * g" using x fg by (rule mult_left_mono [rotated])
  then have "lo \<le> u" unfolding lo_eq u_eq by (rule truncation_mono)
  with lo3 odd_start_props [of lo] show ?thesis by auto
qed

lemma location_approximator_returns:
  assumes "1 \<le> n" "n \<le> 10 ^ 300"
  shows "\<exists>lower upper. location_approximator n = Inr (lower, upper)"
proof -
  consider "n = 1" | "n = 2" | "n = 3" | "n = 4 \<or> n = 5" | "6 \<le> n"
    using assms(1) by linarith
  then show ?thesis
  proof cases
    case 1 then show ?thesis by (simp add: location_approximator_def)
  next
    case 2 then show ?thesis by (simp add: location_approximator_def)
  next
    case 3 then show ?thesis by (simp add: location_approximator_def)
  next
    case 4 then show ?thesis by (auto simp: location_approximator_def math_log_def)
  next
    case 5
    define x where "x = real_of_int n"
    have x6: "6 \<le> x" unfolding x_def using 5 by simp
    have "real_of_int n \<le> real_of_int (10 ^ 300)"
      using assms(2) by (rule of_int_le_iff [THEN iffD2])
    then have "x \<le> 10 ^ 300" unfolding x_def by simp
    then have l: "ln x \<le> 2700" using x6 by (intro ln_le_2700) simp_all
    note f = rs_factors [OF x6]
    have r1: "0 \<le> rs_lower_factor x" "rs_lower_factor x \<le> 5400"
      using f l by linarith+
    have r2: "0 \<le> rs_upper_factor x" "rs_upper_factor x \<le> 5400"
      using f l by linarith+
    note p1 = int_of_product_returns [OF assms r1 [unfolded x_def]]
    note p2 = int_of_product_returns [OF assms r2 [unfolded x_def]]
    show ?thesis
    proof (cases "n < 688383")
      case True
      show ?thesis by (simp add: location_approximator_mid [OF 5 True] p1 p2)
    next
      case False
      then have big: "688383 \<le> n" by simp
      then have xb: "688383 \<le> x" unfolding x_def by simp
      note d = dusart_factors [OF xb]
      have d1: "0 \<le> dusart_lower_factor x" "dusart_lower_factor x \<le> 5400"
        using d l by linarith+
      have d2: "0 \<le> dusart_upper_factor x" "dusart_upper_factor x \<le> 5400"
        using d l by linarith+
      note p3 = int_of_product_returns [OF assms d1 [unfolded x_def]]
      note p4 = int_of_product_returns [OF assms d2 [unfolded x_def]]
      show ?thesis by (simp add: location_approximator_big [OF big] p1 p2 p3 p4)
    qed
  qed
qed

lemma location_approximator_invariant:
  assumes "1 \<le> n" and ret: "location_approximator n = Inr (lower, upper)"
  shows "2 \<le> lower \<and> lower \<le> upper \<and> (lower = 2 \<or> odd lower)"
proof -
  consider "n = 1" | "n = 2" | "n = 3" | "n = 4 \<or> n = 5" | "6 \<le> n" "n < 688383"
    | "688383 \<le> n"
    using assms(1) by linarith
  then show ?thesis
  proof cases
    case 1 with ret show ?thesis by (simp add: location_approximator_def)
  next
    case 2 with ret show ?thesis by (simp add: location_approximator_def)
  next
    case 3 with ret show ?thesis by (simp add: location_approximator_def)
  next
    case 4 with ret show ?thesis by (auto simp: location_approximator_def math_log_def)
  next
    case 5
    have x6: "6 \<le> real_of_int n" using 5(1) by simp
    from ret obtain lo u where
      p: "int_of_product n (rs_lower_factor (real_of_int n)) = Inr lo"
         "int_of_product n (rs_upper_factor (real_of_int n)) = Inr u"
      and eq: "lower = odd_start lo" "upper = u + 1"
      unfolding location_approximator_mid [OF 5] by (auto split: sum.splits)
    from bounds_from_products [OF p _ rs_lower_ge [OF x6] rs_factors(2) [OF x6]] x6 eq
    show ?thesis by simp
  next
    case 6
    have xb: "688383 \<le> real_of_int n" using 6 by simp
    from ret obtain lo u where
      p: "int_of_product n (dusart_lower_factor (real_of_int n)) = Inr lo"
         "int_of_product n (dusart_upper_factor (real_of_int n)) = Inr u"
      and eq: "lower = odd_start lo" "upper = u + 1"
      unfolding location_approximator_big [OF 6] by (auto split: sum.splits)
    have "3 * 1 \<le> real_of_int n * dusart_lower_factor (real_of_int n)"
      using xb dusart_factors(1) [OF xb] by (intro mult_mono) simp_all
    then have f3: "3 \<le> real_of_int n * dusart_lower_factor (real_of_int n)" by simp
    from bounds_from_products [OF p _ f3 dusart_factors(2) [OF xb]] xb eq
    show ?thesis by simp
  qed
qed

text \<open>
  C9: for every \<open>n \<ge> 1\<close>, a pair \<open>(lower, upper)\<close> that the estimator returns has
  \<open>2 \<le> lower \<le> upper\<close>, and \<open>lower\<close> is 2 or odd. The estimator does return a
  pair for every \<open>n\<close> from 1 to \<open>10 ^ 300\<close>; far beyond that the products leave the
  range of a float and the call raises \<open>OverflowError\<close> instead.
\<close>

theorem location_approximator_bounds_ordered:
  assumes "1 \<le> n"
  shows "(\<forall>lower upper. location_approximator n = Inr (lower, upper) \<longrightarrow>
            2 \<le> lower \<and> lower \<le> upper \<and> (lower = 2 \<or> odd lower)) \<and>
         (n \<le> 10 ^ 300 \<longrightarrow> (\<exists>lower upper. location_approximator n = Inr (lower, upper)))"
  using assms location_approximator_invariant [of n] location_approximator_returns [of n]
  by blast

theorem location_approximator_bounds_ordered_witness:
  "(1::int) \<le> 100 \<and> (100::int) \<le> 10 ^ 300 \<and>
   (\<exists>lower upper. location_approximator 100 = Inr (lower, upper) \<and>
      2 \<le> lower \<and> lower \<le> upper \<and> (lower = 2 \<or> odd lower)) \<and>
   (1::int) \<le> 1000000 \<and> (1000000::int) \<le> 10 ^ 300 \<and>
   (\<exists>lower upper. location_approximator 1000000 = Inr (lower, upper) \<and>
      2 \<le> lower \<and> lower \<le> upper \<and> (lower = 2 \<or> odd lower))"
proof -
  have a: "(1::int) \<le> 100" "(100::int) \<le> 10 ^ 300" by simp_all
  have b: "(1::int) \<le> 1000000" "(1000000::int) \<le> 10 ^ 300" by simp_all
  from location_approximator_bounds_ordered [OF a(1)] a(2)
  have "\<exists>lower upper. location_approximator 100 = Inr (lower, upper) \<and>
      2 \<le> lower \<and> lower \<le> upper \<and> (lower = 2 \<or> odd lower)" by blast
  moreover from location_approximator_bounds_ordered [OF b(1)] b(2)
  have "\<exists>lower upper. location_approximator 1000000 = Inr (lower, upper) \<and>
      2 \<le> lower \<and> lower \<le> upper \<and> (lower = 2 \<or> odd lower)" by blast
  ultimately show ?thesis using a b by blast
qed

text \<open>
  C3, as the code has it: for \<open>6 \<le> n < 688383\<close> the estimator returns the
  Rosser-Schoenfeld pair, \<open>lower = floor (n * (ln n + ln (ln n) - 1))\<close> before the
  odd-start adjustment and \<open>upper = floor (n * (ln n + ln (ln n))) + 1\<close>; for
  \<open>n = 4\<close> and \<open>n = 5\<close> it returns the fixed pair \<open>(2, 30)\<close>.
\<close>

theorem rosser_schoenfeld_range:
  "(6 \<le> n \<and> n < 688383 \<longrightarrow>
      location_approximator n =
        Inr (odd_start (fst (rosser_schoenfeld n)), snd (rosser_schoenfeld n))) \<and>
   (n = 4 \<or> n = 5 \<longrightarrow> location_approximator n = Inr (2, 30))"
  using location_approximator_rosser_schoenfeld [of n]
  by (auto simp: location_approximator_def math_log_def)

theorem rosser_schoenfeld_range_witness:
  "(6::int) \<le> 100 \<and> (100::int) < 688383 \<and>
   location_approximator 100 =
     Inr (odd_start (fst (rosser_schoenfeld 100)), snd (rosser_schoenfeld 100)) \<and>
   location_approximator 4 = Inr (2, 30)"
  using rosser_schoenfeld_range [of 100] rosser_schoenfeld_range [of 4] by simp

text \<open>
  C3 as stated (the Rosser-Schoenfeld pair from \<open>n = 4\<close> on) fails at \<open>n = 4\<close>:
  the formula's upper bound is at most 21, the code's is 30.
\<close>

theorem rosser_schoenfeld_at_4_counterexample:
  "(4::int) \<le> 4 \<and> (4::int) < 688383 \<and>
   location_approximator 4 \<noteq>
     Inr (odd_start (fst (rosser_schoenfeld 4)), snd (rosser_schoenfeld 4))"
proof -
  define l :: real where "l = ln 4"
  have l4: "l \<le> 3" unfolding l_def using ln_le_minus_one [of "4::real"] by simp
  have "0 < l" unfolding l_def by simp
  then have "ln l \<le> l - 1" by (rule ln_le_minus_one)
  with l4 have "l + ln l \<le> 5" by linarith
  then have "4 * (l + ln l) \<le> 20" by simp
  then have "4 * (ln 4 + ln (ln (4::real))) \<le> 20" unfolding l_def .
  then have "\<lfloor>4 * (ln 4 + ln (ln (4::real)))\<rfloor> \<le> \<lfloor>20::real\<rfloor>" by (rule floor_mono)
  moreover have "snd (rosser_schoenfeld 4) = \<lfloor>4 * (ln 4 + ln (ln (4::real)))\<rfloor> + 1"
    by (simp add: rosser_schoenfeld_def)
  moreover have "\<lfloor>20::real\<rfloor> = 20" by simp
  ultimately have "snd (rosser_schoenfeld 4) \<noteq> 30" by linarith
  moreover have "location_approximator 4 = Inr (2, 30)"
    by (simp add: location_approximator_def math_log_def)
  ultimately show ?thesis by auto
qed

section \<open>The search\<close>

text \<open>
  C7: for \<open>n < 1\<close> the call raises \<open>ValueError\<close>: \<open>math.log\<close> rejects \<open>n\<close> in
  \<open>location_approximator\<close>, before any candidate is tested.
\<close>

theorem nth_prime_invalid_index:
  "n < 1 \<Longrightarrow> location_approximator n = Inl ValueError \<and> nth_prime n = Some (Inl ValueError)"
  by (simp add: nth_prime_def location_approximator_nonpositive)

theorem nth_prime_invalid_index_witness:
  "(0::int) < 1 \<and> location_approximator 0 = Inl ValueError \<and> nth_prime 0 = Some (Inl ValueError)"
  using nth_prime_invalid_index [of 0] by simp

subsection \<open>The indices 3, 4 and 5\<close>

lemmas mr_eval = miller_rabin_def factor_loop.simps witnesses7_def pow_mod_def
  count_loop.simps search_loop.simps

text \<open>
  C1 at \<open>n = 4\<close>: for \<open>n = 4\<close> the lower bound is 2, so the search starts at
  candidate 2 with \<open>prime_count\<close> already 1 for the prime 2, and counts 2 a second time.
  The call returns 5, below which (5 included) the test confirms three primes; the fourth
  confirmed prime is 7.
\<close>

theorem nth_prime_4_returns_5:
  "nth_prime 4 = Some (Inr 5) \<and> oracle_count 5 = 3 \<and> oracle_count 7 = 4"
  by (simp add: nth_prime_def location_approximator_4 oracle_count_def mr_eval)

text \<open>
  C2 at \<open>n = 3\<close>: \<open>nth_prime 3\<close> and \<open>nth_prime 4\<close> are both 5, so the sequence
  is not strictly increasing there.
\<close>

theorem nth_prime_3_4_equal:
  "nth_prime 3 = Some (Inr 5) \<and> nth_prime 4 = Some (Inr 5)"
  by (simp add: nth_prime_def location_approximator_3 location_approximator_4 mr_eval)

end
